theory Spec2Isabelle
  imports Main "HOL-Library.Word"
begin

section \<open>The streaming response decoder of aiyou-go-sdk (stream.go)\<close>

text \<open>
  The development embeds \<^verbatim>\<open>readEvent\<close> and \<^verbatim>\<open>processStream\<close> of stream.go together
  with the parts of Go's standard library they call. A Go \<^verbatim>\<open>[]byte\<close> and a Go
  \<^verbatim>\<open>string\<close> are both lists of bytes; \<^typ>\<open>char\<close> is the 8-bit byte.
\<close>

type_synonym bytes = "char list"

subsection \<open>Errors\<close>

text \<open>
  Go errors are compared by identity (\<^verbatim>\<open>err == io.EOF\<close>). The values that matter here
  are \<^verbatim>\<open>io.EOF\<close>, \<^verbatim>\<open>io.ErrNoProgress\<close> (raised by bufio itself), the package's
  \<^verbatim>\<open>ErrStreamCorrupted\<close>, and any other error value a transport may return, told
  apart by its message.
\<close>

datatype error = EOF | ErrNoProgress | ErrStreamCorrupted | ReadError string

subsection \<open>package bytes: HasPrefix, TrimPrefix, IndexByte, TrimSpace\<close>

definition HasPrefix :: "bytes \<Rightarrow> bytes \<Rightarrow> bool" where
  "HasPrefix s p = (length p \<le> length s \<and> take (length p) s = p)"

definition HasSuffix :: "bytes \<Rightarrow> bytes \<Rightarrow> bool" where
  "HasSuffix s p = (length p \<le> length s \<and> drop (length s - length p) s = p)"

definition TrimPrefix :: "bytes \<Rightarrow> bytes \<Rightarrow> bytes" where
  "TrimPrefix s p = (if HasPrefix s p then drop (length p) s else s)"

text \<open>\<^verbatim>\<open>bytes.IndexByte\<close> returns -1 when the byte does not occur; here \<open>None\<close>.\<close>

definition IndexByte :: "bytes \<Rightarrow> char \<Rightarrow> nat option" where
  "IndexByte s c = (if c \<in> set s then Some (length (takeWhile (\<lambda>x. x \<noteq> c) s)) else None)"

text \<open>
  \<^verbatim>\<open>bytes.TrimSpace\<close> removes leading and trailing white space "as defined by Unicode":
  it decodes UTF-8 runes from the left, then from the right, and drops every rune for
  which \<^verbatim>\<open>unicode.IsSpace\<close> holds. The white-space code points are U+0009..U+000D,
  U+0020, U+0085, U+00A0, U+1680, U+2000..U+200A, U+2028, U+2029, U+202F, U+205F and
  U+3000; \<open>spaceRunes\<close> lists their (shortest-form) UTF-8 encodings. An invalid or
  overlong sequence decodes to U+FFFD, which is not white space, so trimming stops there.
\<close>

definition spaceRunes :: "bytes list" where
  "spaceRunes =
     map (\<lambda>c. [c]) [CHR 0x09, CHR 0x0A, CHR 0x0B, CHR 0x0C, CHR 0x0D, CHR 0x20] @
     [[CHR 0xC2, CHR 0x85], [CHR 0xC2, CHR 0xA0], [CHR 0xE1, CHR 0x9A, CHR 0x80]] @
     map (\<lambda>c. [CHR 0xE2, CHR 0x80, c])
       [CHR 0x80, CHR 0x81, CHR 0x82, CHR 0x83, CHR 0x84, CHR 0x85, CHR 0x86, CHR 0x87,
        CHR 0x88, CHR 0x89, CHR 0x8A, CHR 0xA8, CHR 0xA9, CHR 0xAF] @
     [[CHR 0xE2, CHR 0x81, CHR 0x9F], [CHR 0xE3, CHR 0x80, CHR 0x80]]"

lemma spaceRunes_nonempty: "w \<in> set spaceRunes \<Longrightarrow> w \<noteq> []"
  by (auto simp: spaceRunes_def)

lemma find_holds: "find P xs = Some w \<Longrightarrow> w \<in> set xs \<and> P w"
  by (induction xs) (auto split: if_splits)

lemma find_spaceRunes_nonempty: "find P spaceRunes = Some w \<Longrightarrow> w \<noteq> []"
  by (auto dest: find_holds spaceRunes_nonempty)

function TrimLeft :: "bytes \<Rightarrow> bytes" where
  "TrimLeft s = (case find (HasPrefix s) spaceRunes of
                   None \<Rightarrow> s
                 | Some w \<Rightarrow> TrimLeft (drop (length w) s))"
  by pat_completeness auto
termination
proof (relation "measure length", goal_cases)
  case 1
  show ?case by simp
next
  case (2 s w)
  from 2 have "w \<noteq> []" by (rule find_spaceRunes_nonempty)
  moreover from 2 have "HasPrefix s w" by (auto dest: find_holds)
  ultimately show ?case by (cases w) (auto simp: HasPrefix_def)
qed

function TrimRight :: "bytes \<Rightarrow> bytes" where
  "TrimRight s = (case find (HasSuffix s) spaceRunes of
                    None \<Rightarrow> s
                  | Some w \<Rightarrow> TrimRight (take (length s - length w) s))"
  by pat_completeness auto
termination
proof (relation "measure length", goal_cases)
  case 1
  show ?case by simp
next
  case (2 s w)
  from 2 have "w \<noteq> []" by (rule find_spaceRunes_nonempty)
  moreover from 2 have "HasSuffix s w" by (auto dest: find_holds)
  ultimately show ?case by (cases w) (auto simp: HasSuffix_def)
qed

definition TrimSpace :: "bytes \<Rightarrow> bytes" where
  "TrimSpace s = TrimRight (TrimLeft s)"

subsection \<open>The underlying io.Reader and bufio.Reader\<close>

text \<open>
  The transport's \<^verbatim>\<open>io.Reader\<close> is modelled by the finite sequence of results its
  successive \<^verbatim>\<open>Read\<close> calls give: a chunk of bytes, or an error. A read that returns
  bytes together with an error is two entries. Once the sequence is used up every
  further read gives \<^verbatim>\<open>io.EOF\<close>.
\<close>

datatype read_result = Data bytes | Fail error

text \<open>
  \<^verbatim>\<open>bufio.Reader\<close>: the bytes already read but not yet handed out, and the reads still
  to come. \<^verbatim>\<open>fill\<close> reads new data, giving up with \<^verbatim>\<open>io.ErrNoProgress\<close> after
  \<^verbatim>\<open>maxConsecutiveEmptyReads\<close> reads of zero bytes.
\<close>

type_synonym bufio_Reader = "bytes \<times> read_result list"

definition maxConsecutiveEmptyReads :: nat where
  "maxConsecutiveEmptyReads = 100"

fun fill :: "nat \<Rightarrow> read_result list \<Rightarrow> (error + bytes) \<times> read_result list" where
  "fill i [] = (if i = 0 then (Inl ErrNoProgress, []) else (Inl EOF, []))"
| "fill i (Fail e # rd) =
     (if i = 0 then (Inl ErrNoProgress, Fail e # rd) else (Inl e, rd))"
| "fill i (Data d # rd) =
     (if i = 0 then (Inl ErrNoProgress, Data d # rd)
      else if d = [] then fill (i - 1) rd
      else (Inr d, rd))"

lemma fill_shrinks: "fill i rd = (Inr d, rd') \<Longrightarrow> length rd' < length rd"
  by (induction i rd rule: fill.induct) (auto split: if_splits)

text \<open>
  \<^verbatim>\<open>ReadBytes('\n')\<close> returns the bytes up to and including the first newline; when an
  error comes first it returns the bytes read so far together with the error.
\<close>

function ReadBytes :: "bufio_Reader \<Rightarrow> (bytes \<times> error option) \<times> bufio_Reader" where
  "ReadBytes (buf, rd) =
     (case IndexByte buf (CHR 0x0A) of
        Some i \<Rightarrow> ((take (i + 1) buf, None), (drop (i + 1) buf, rd))
      | None \<Rightarrow>
          (case fill maxConsecutiveEmptyReads rd of
             (Inl err, rd') \<Rightarrow> ((buf, Some err), ([], rd'))
           | (Inr d, rd') \<Rightarrow> ReadBytes (buf @ d, rd')))"
  by pat_completeness auto
termination
  by (relation "measure (\<lambda>(buf, rd). length rd)") (auto dest: fill_shrinks [OF sym])


subsection \<open>The framer: streamReader and readEvent\<close>

record streamReader =
  reader :: bufio_Reader
  buffer :: bytes

definition newStreamReader :: "read_result list \<Rightarrow> streamReader" where
  "newStreamReader r = \<lparr>reader = ([], r), buffer = []\<rparr>"

text \<open>A measure of what a reader still holds: every successful \<open>ReadBytes\<close> lowers it.\<close>

fun pending :: "read_result list \<Rightarrow> nat" where
  "pending [] = 0"
| "pending (Data d # rd) = Suc (length d + pending rd)"
| "pending (Fail e # rd) = Suc (pending rd)"

definition unread :: "bufio_Reader \<Rightarrow> nat" where
  "unread r = length (fst r) + pending (snd r)"

lemma fill_pending_data: "fill i rd = (Inr d, rd') \<Longrightarrow> length d + pending rd' < pending rd"
  by (induction i rd rule: fill.induct) (auto split: if_splits)

lemma fill_pending_err: "fill i rd = (Inl e, rd') \<Longrightarrow> pending rd' \<le> pending rd"
  by (induction i rd rule: fill.induct) (auto split: if_splits)

lemma takeWhile_less: "c \<in> set s \<Longrightarrow> length (takeWhile (\<lambda>x. x \<noteq> c) s) < length s"
  by (induction s) auto

lemma IndexByte_less: "IndexByte s c = Some i \<Longrightarrow> i < length s"
  by (auto simp: IndexByte_def takeWhile_less split: if_splits)

lemma ReadBytes_unread_le: "ReadBytes r = (x, r') \<Longrightarrow> unread r' \<le> unread r"
proof (induction r arbitrary: x r' rule: ReadBytes.induct)
  case (1 buf rd)
  show ?case
  proof (cases "IndexByte buf (CHR 0x0A)")
    case (Some i)
    with "1.prems" show ?thesis by (auto simp: unread_def)
  next
    case None
    obtain y rd' where f: "fill maxConsecutiveEmptyReads rd = (y, rd')"
      by (cases "fill maxConsecutiveEmptyReads rd")
    show ?thesis
    proof (cases y)
      case (Inl e)
      with f have "pending rd' \<le> pending rd" by (auto dest: fill_pending_err)
      with Inl None f "1.prems" show ?thesis
        by (auto simp: unread_def)
    next
      case (Inr d)
      with None f "1.prems" have rb: "ReadBytes (buf @ d, rd') = (x, r')" by simp
      have "unread r' \<le> unread (buf @ d, rd')"
        by (rule "1.IH" [OF None f [symmetric] Inr rb])
      moreover from Inr f have "length d + pending rd' < pending rd"
        by (auto dest: fill_pending_data)
      ultimately show ?thesis by (auto simp: unread_def)
    qed
  qed
qed

lemma ReadBytes_unread_less: "ReadBytes r = ((line, None), r') \<Longrightarrow> unread r' < unread r"
proof (induction r arbitrary: line r' rule: ReadBytes.induct)
  case (1 buf rd)
  show ?case
  proof (cases "IndexByte buf (CHR 0x0A)")
    case (Some i)
    moreover from Some have "i < length buf" by (rule IndexByte_less)
    ultimately show ?thesis using "1.prems" by (auto simp: unread_def)
  next
    case None
    obtain y rd' where f: "fill maxConsecutiveEmptyReads rd = (y, rd')"
      by (cases "fill maxConsecutiveEmptyReads rd")
    show ?thesis
    proof (cases y)
      case (Inl e)
      with None f "1.prems" show ?thesis by auto
    next
      case (Inr d)
      with None f "1.prems" have rb: "ReadBytes (buf @ d, rd') = ((line, None), r')" by simp
      have "unread r' < unread (buf @ d, rd')"
        by (rule "1.IH" [OF None f [symmetric] Inr rb])
      moreover from Inr f have "length d + pending rd' < pending rd"
        by (auto dest: fill_pending_data)
      ultimately show ?thesis by (auto simp: unread_def)
    qed
  qed
qed

text \<open>
  The loop of \<^verbatim>\<open>readEvent\<close>, after \<^verbatim>\<open>s.buffer.Reset()\<close>. The result is the pair the Go
  function returns (a nil slice is the empty list) and the reader afterwards.
\<close>

function readEvent_loop :: "streamReader \<Rightarrow> (bytes \<times> error option) \<times> streamReader" where
  "readEvent_loop s =
     (case ReadBytes (reader s) of
        ((line, Some err), r') \<Rightarrow>
          (if err = EOF \<and> length (buffer s) > 0
           then ((buffer s, None), s\<lparr>reader := r'\<rparr>)
           else (([], Some err), s\<lparr>reader := r'\<rparr>))
      | ((line, None), r') \<Rightarrow>
          (if HasPrefix line '':'' then readEvent_loop (s\<lparr>reader := r'\<rparr>)
           else if length (TrimSpace line) = 0 then
             (if length (buffer s) > 0 then ((buffer s, None), s\<lparr>reader := r'\<rparr>)
              else readEvent_loop (s\<lparr>reader := r'\<rparr>))
           else if HasPrefix line ''data: '' then
             readEvent_loop
               (s\<lparr>reader := r', buffer := buffer s @ TrimSpace (TrimPrefix line ''data: '')\<rparr>)
           else readEvent_loop (s\<lparr>reader := r'\<rparr>)))"
  by pat_completeness auto
termination
  by (relation "measure (\<lambda>s. unread (reader s))")
     (auto dest: ReadBytes_unread_less [OF sym])

definition readEvent :: "streamReader \<Rightarrow> (bytes \<times> error option) \<times> streamReader" where
  "readEvent s = readEvent_loop (s\<lparr>buffer := []\<rparr>)"

declare readEvent_loop.simps [simp del]

lemma readEvent_loop_unread_le:
  "readEvent_loop s = (x, s') \<Longrightarrow> unread (reader s') \<le> unread (reader s)"
proof (induction s arbitrary: x s' rule: readEvent_loop.induct)
  case (1 s)
  obtain line eo r' where rb: "ReadBytes (reader s) = ((line, eo), r')"
    by (metis prod.exhaust)
  have le: "unread r' \<le> unread (reader s)" using rb by (rule ReadBytes_unread_le)
  show ?case
  proof (cases eo)
    case (Some err)
    with rb "1.prems" le show ?thesis
      by (subst (asm) readEvent_loop.simps) (auto split: if_splits)
  next
    case None
    note IH = "1.IH" [OF rb [symmetric] refl None]
    from "1.prems" rb None le show ?thesis
      apply (subst (asm) readEvent_loop.simps)
      apply (auto split: if_splits dest: IH)
      done
  qed
qed

lemma readEvent_loop_unread_less:
  assumes "readEvent_loop s = ((d, None), s')" and "buffer s = []"
  shows "unread (reader s') < unread (reader s)"
proof -
  obtain line eo r' where rb: "ReadBytes (reader s) = ((line, eo), r')"
    by (metis prod.exhaust)
  show ?thesis
  proof (cases eo)
    case (Some err)
    with rb assms show ?thesis
      by (subst (asm) readEvent_loop.simps) (auto split: if_splits)
  next
    case None
    with rb have "unread r' < unread (reader s)" by (auto dest: ReadBytes_unread_less)
    with assms rb None show ?thesis
      apply (subst (asm) readEvent_loop.simps)
      apply (auto split: if_splits dest!: readEvent_loop_unread_le)
      done
  qed
qed


lemma readEvent_unread_less:
  "readEvent s = ((d, None), s') \<Longrightarrow> unread (reader s') < unread (reader s)"
  using readEvent_loop_unread_less [of "s\<lparr>buffer := []\<rparr>" d s']
  by (simp add: readEvent_def)

text \<open>
  The events of a stream: the payloads that repeated calls of \<^verbatim>\<open>readEvent\<close> return up
  to the first error, collected as the loop of \<^verbatim>\<open>TestStreamReader\<close> collects them,
  together with the error that ends the loop.
\<close>

function readEvents :: "streamReader \<Rightarrow> bytes list \<times> error" where
  "readEvents rd =
     (case readEvent rd of
        ((data, Some err), rd') \<Rightarrow> ((if length data > 0 then [data] else []), err)
      | ((data, None), rd') \<Rightarrow>
          (case readEvents rd' of (got, err) \<Rightarrow> (data # got, err)))"
  by pat_completeness auto
termination
  by (relation "measure (\<lambda>rd. unread (reader rd))")
     (auto dest: readEvent_unread_less [OF sym])

declare readEvents.simps [simp del]

subsection \<open>The aggregator: processStream\<close>

text \<open>
  The chunk object \<^verbatim>\<open>streamResponse\<close> and its parts. No arithmetic is done on the
  integer fields.
\<close>

record delta =
  Role :: string
  Content :: string

record streamChoice =
  Index :: int
  Delta :: delta

record usage =
  PromptTokens :: int
  CompletionTokens :: int
  TotalTokens :: int

record streamResponse =
  Model :: string
  ID :: string
  Created :: "64 word"
  Choices :: "streamChoice list"
  Usage :: "usage option"

text \<open>
  \<^verbatim>\<open>json.Unmarshal(data, &resp)\<close> into a fresh \<^verbatim>\<open>streamResponse\<close> belongs to Go's
  encoding/json, not to this repository: it is a parameter \<open>Unmarshal\<close> of the model,
  giving the decoded chunk or \<open>None\<close> when Go returns an error. The calls of
  \<^verbatim>\<open>debugPrint\<close> and \<^verbatim>\<open>debugJSON\<close> only write to standard error and are left out.
\<close>

type_synonym unmarshal = "bytes \<Rightarrow> streamResponse option"

text \<open>The inner loop over \<^verbatim>\<open>resp.Choices\<close>, appending to the \<^verbatim>\<open>strings.Builder\<close>.\<close>

fun addChoices :: "streamChoice list \<Rightarrow> bytes \<Rightarrow> bytes" where
  "addChoices [] result = result"
| "addChoices (choice # cs) result =
     addChoices cs
       (if Content (Delta choice) \<noteq> [] then result @ Content (Delta choice) else result)"

function processStream_loop :: "unmarshal \<Rightarrow> streamReader \<Rightarrow> bytes \<Rightarrow> bytes \<times> error option" where
  "processStream_loop Unmarshal rd result =
     (case readEvent rd of
        ((data, Some err), rd') \<Rightarrow> (if err = EOF then (result, None) else ([], Some err))
      | ((data, None), rd') \<Rightarrow>
          (if length data = 0 then processStream_loop Unmarshal rd' result
           else if data = ''[DONE]'' then processStream_loop Unmarshal rd' result
           else (case Unmarshal data of
                   None \<Rightarrow> ([], Some ErrStreamCorrupted)
                 | Some resp \<Rightarrow>
                     processStream_loop Unmarshal rd' (addChoices (Choices resp) result))))"
  by pat_completeness auto
termination
  by (relation "measure (\<lambda>(U, rd, result). unread (reader rd))")
     (auto dest: readEvent_unread_less [OF sym])

declare processStream_loop.simps [simp del]

definition processStream :: "unmarshal \<Rightarrow> read_result list \<Rightarrow> bytes \<times> error option" where
  "processStream Unmarshal r = processStream_loop Unmarshal (newStreamReader r) []"


subsection \<open>Reference descriptions used by the theorems\<close>

text \<open>
  The aggregator's loop body applied to a list of event payloads \<open>evs\<close> and the error
  \<open>e\<close> that ended the framer's sequence: what \<open>processStream_loop\<close> does once the
  events are known.
\<close>

fun foldEvents :: "unmarshal \<Rightarrow> bytes list \<Rightarrow> error \<Rightarrow> bytes \<Rightarrow> bytes \<times> error option" where
  "foldEvents U [] e result = (if e = EOF then (result, None) else ([], Some e))"
| "foldEvents U (data # evs) e result =
     (if data = [] \<or> data = ''[DONE]'' then foldEvents U evs e result
      else (case U data of
              None \<Rightarrow> ([], Some ErrStreamCorrupted)
            | Some resp \<Rightarrow> foldEvents U evs e (addChoices (Choices resp) result)))"


text \<open>
  The text one chunk contributes: its non-empty delta fragments, in the order of the
  choice entries.
\<close>

definition deltaText :: "streamResponse \<Rightarrow> bytes" where
  "deltaText resp = concat (filter (\<lambda>f. f \<noteq> []) (map (\<lambda>choice. Content (Delta choice)) (Choices resp)))"


text \<open>
  Sample decoder results for the payloads of \<^verbatim>\<open>TestProcessStream\<close>, used where a
  theorem is applied to a concrete stream: what \<^verbatim>\<open>json.Unmarshal\<close> gives on them.
\<close>

definition chunkOf :: "streamChoice list \<Rightarrow> streamResponse" where
  "chunkOf cs = \<lparr>Model = [], ID = [], Created = 0, Choices = cs, Usage = None\<rparr>"

definition choiceOf :: "string \<Rightarrow> string \<Rightarrow> streamChoice" where
  "choiceOf role text = \<lparr>Index = 0, Delta = \<lparr>Role = role, Content = text\<rparr>\<rparr>"

definition testUnmarshal :: unmarshal where
  "testUnmarshal data =
     (if data = ''{\"choices\":[{\"delta\":{\"content\":\"Hello\"}}]}''
        then Some (chunkOf [choiceOf [] ''Hello''])
      else if data = ''{\"choices\":[{\"delta\":{\"content\":\" World\"}}]}''
        then Some (chunkOf [choiceOf [] '' World''])
      else if data = ''{\"choices\":[{\"delta\":{\"role\":\"assistant\",\"content\":\"Hello\"}}]}''
        then Some (chunkOf [choiceOf ''assistant'' ''Hello''])
      else if data = ''{\"choices\":[{\"delta\":{\"content\":\"!\"}}]}''
        then Some (chunkOf [choiceOf [] ''!''])
      else if data = ''{\"choices\":[]}'' then Some (chunkOf [])
      else None)"

text \<open>
  Two buffered readers hold the same stream when the second is the first with some of
  its leading non-empty chunks already read into the buffer.
\<close>

inductive coalesces :: "bufio_Reader \<Rightarrow> bufio_Reader \<Rightarrow> bool" where
  same: "coalesces r r"
| chunk: "d \<noteq> [] \<Longrightarrow> coalesces (buf @ d, rd) t \<Longrightarrow> coalesces (buf, Data d # rd) t"


text \<open>
  The complete lines of a text: every line up to and including its newline, in order.
  Bytes after the last newline belong to no line.
\<close>

function lines_of :: "bytes \<Rightarrow> bytes list" where
  "lines_of t = (case IndexByte t (CHR 0x0A) of
                   None \<Rightarrow> []
                 | Some i \<Rightarrow> take (i + 1) t # lines_of (drop (i + 1) t))"
  by pat_completeness auto
termination
  by (relation "measure length") (auto dest: IndexByte_less)

declare lines_of.simps [simp del]


text \<open>
  The framing rules of \<^verbatim>\<open>readEvent\<close> applied to a list of complete lines, starting
  with accumulation buffer \<open>buf\<close>: the payloads of all events, a pending buffer being
  flushed at the end of input.
\<close>

fun frame :: "bytes \<Rightarrow> bytes list \<Rightarrow> bytes list" where
  "frame buf [] = (if buf \<noteq> [] then [buf] else [])"
| "frame buf (l # ls) =
     (if HasPrefix l '':'' then frame buf ls
      else if TrimSpace l = [] then (if buf \<noteq> [] then buf # frame [] ls else frame buf ls)
      else if HasPrefix l ''data: '' then frame (buf @ TrimSpace (TrimPrefix l ''data: '')) ls
      else frame buf ls)"


text \<open>
  The events read from a state in the middle of \<^verbatim>\<open>readEvent\<close>'s loop (the buffer is not
  reset for the first event).
\<close>

definition loopEvents :: "streamReader \<Rightarrow> bytes list \<times> error" where
  "loopEvents s =
     (case readEvent_loop s of
        ((d, None), s') \<Rightarrow> (d # fst (readEvents s'), snd (readEvents s'))
      | ((d, Some e), s') \<Rightarrow> ([], e))"


text \<open>
  The framing convention in the words of its description. A blank line is one that
  holds only white space. The lines of a text fall into groups separated by blank
  lines; a line contributes its trimmed remainder after the prefix \<^verbatim>\<open>data: \<close> when it
  has that prefix and nothing otherwise; the payload of a group is the concatenation,
  without separator, of what its lines contribute.
\<close>

definition isBlank :: "bytes \<Rightarrow> bool" where
  "isBlank l = (TrimSpace l = [])"

definition dataOf :: "bytes \<Rightarrow> bytes" where
  "dataOf l = (if HasPrefix l ''data: '' then TrimSpace (TrimPrefix l ''data: '') else [])"

fun groups :: "bytes list \<Rightarrow> bytes list list" where
  "groups [] = [[]]"
| "groups (l # ls) =
     (if isBlank l then [] # groups ls
      else (l # hd (groups ls)) # tl (groups ls))"

definition payloadOf :: "bytes list \<Rightarrow> bytes" where
  "payloadOf g = concat (map dataOf g)"

definition specEvents :: "bytes list \<Rightarrow> bytes list" where
  "specEvents ls = filter (\<lambda>p. p \<noteq> []) (map payloadOf (groups ls))"

subsection \<open>The aggregator in terms of the framer's events\<close>

lemma readEvent_loop_error_nil:
  "readEvent_loop s = ((d, Some e), s') \<Longrightarrow> d = []"
proof (induction s arbitrary: d e s' rule: readEvent_loop.induct)
  case (1 s)
  obtain line eo r' where rb: "ReadBytes (reader s) = ((line, eo), r')"
    by (metis prod.exhaust)
  show ?case
  proof (cases eo)
    case (Some err)
    with rb "1.prems" show ?thesis
      by (subst (asm) readEvent_loop.simps) (auto split: if_splits)
  next
    case None
    note IH = "1.IH" [OF rb [symmetric] refl None]
    from "1.prems" rb None show ?thesis
      apply (subst (asm) readEvent_loop.simps)
      apply (auto split: if_splits dest: IH)
      done
  qed
qed

lemma readEvent_error_nil: "readEvent s = ((d, Some e), s') \<Longrightarrow> d = []"
  unfolding readEvent_def by (rule readEvent_loop_error_nil)

declare foldEvents.simps [simp del]

lemma processStream_loop_foldEvents:
  "processStream_loop U rd result = foldEvents U (fst (readEvents rd)) (snd (readEvents rd)) result"
proof (induction U rd result rule: processStream_loop.induct)
  case (1 U rd result)
  obtain d eo rd' where re: "readEvent rd = ((d, eo), rd')"
    by (metis prod.exhaust)
  show ?case
  proof (cases eo)
    case (Some err)
    with re have "d = []" by (auto dest: readEvent_error_nil)
    with re Some show ?thesis
      by (subst processStream_loop.simps, subst (1 2) readEvents.simps)
         (simp add: foldEvents.simps)
  next
    case None
    note IH = "1.IH" [OF re [symmetric] refl None]
    from re None IH show ?thesis
      by (subst processStream_loop.simps, subst (1 2) readEvents.simps)
         (auto simp: foldEvents.simps split: prod.splits option.splits)
  qed
qed


lemma addChoices_concat:
  "addChoices cs result = result @ concat (filter (\<lambda>f. f \<noteq> []) (map (\<lambda>choice. Content (Delta choice)) cs))"
  by (induction cs arbitrary: result) auto

lemma foldEvents_ok:
  assumes "\<forall>p \<in> set evs. p = [] \<or> p = ''[DONE]'' \<or> U p \<noteq> None"
  shows "foldEvents U evs EOF result =
     (result @ concat (map deltaText (List.map_filter U (filter (\<lambda>p. p \<noteq> [] \<and> p \<noteq> ''[DONE]'') evs))), None)"
proof -
  define D :: bytes where "D = ''[DONE]''"
  note fs = foldEvents.simps [folded D_def]
  from assms have "\<forall>p \<in> set evs. p = [] \<or> p = D \<or> U p \<noteq> None" by (simp only: D_def)
  then have "foldEvents U evs EOF result =
     (result @ concat (map deltaText (List.map_filter U (filter (\<lambda>p. p \<noteq> [] \<and> p \<noteq> D) evs))), None)"
    by (induction evs arbitrary: result)
       (auto simp: fs addChoices_concat deltaText_def List.map_filter_simps split: option.splits)
  then show ?thesis by (simp only: D_def)
qed

lemma foldEvents_corrupted:
  assumes "\<exists>p \<in> set evs. p \<noteq> [] \<and> p \<noteq> ''[DONE]'' \<and> U p = None"
  shows "foldEvents U evs e result = ([], Some ErrStreamCorrupted)"
proof -
  define D :: bytes where "D = ''[DONE]''"
  note fs = foldEvents.simps [folded D_def]
  from assms have "\<exists>p \<in> set evs. p \<noteq> [] \<and> p \<noteq> D \<and> U p = None" by (simp only: D_def)
  then show ?thesis
    by (induction evs arbitrary: result) (auto simp: fs split: option.splits)
qed

lemma foldEvents_error:
  assumes "\<forall>p \<in> set evs. p = [] \<or> p = ''[DONE]'' \<or> U p \<noteq> None" and "e \<noteq> EOF"
  shows "foldEvents U evs e result = ([], Some e)"
proof -
  define D :: bytes where "D = ''[DONE]''"
  note fs = foldEvents.simps [folded D_def]
  from assms have "\<forall>p \<in> set evs. p = [] \<or> p = D \<or> U p \<noteq> None" by (simp only: D_def)
  with \<open>e \<noteq> EOF\<close> show ?thesis
    by (induction evs arbitrary: result) (auto simp: fs split: option.splits)
qed


subsection \<open>The framer does not depend on how the bytes are chunked\<close>

lemma IndexByte_append:
  "IndexByte buf c = Some i \<Longrightarrow> IndexByte (buf @ d) c = Some i"
  by (auto simp: IndexByte_def takeWhile_append1 split: if_splits)

lemma IndexByte_None_iff: "IndexByte buf c = None \<longleftrightarrow> c \<notin> set buf"
  by (simp add: IndexByte_def)

lemma ReadBytes_chunk_line:
  assumes "IndexByte buf (CHR 0x0A) = Some i"
  shows "ReadBytes (buf, rd) = ((take (i + 1) buf, None), (drop (i + 1) buf, rd))"
  using assms by simp

lemma ReadBytes_chunk_more:
  assumes "IndexByte buf (CHR 0x0A) = None" and "d \<noteq> []"
  shows "ReadBytes (buf, Data d # rd) = ReadBytes (buf @ d, rd)"
  using assms by (simp add: maxConsecutiveEmptyReads_def)

declare ReadBytes.simps [simp del]

lemma ReadBytes_coalesces:
  "coalesces r t \<Longrightarrow>
   fst (ReadBytes r) = fst (ReadBytes t) \<and> coalesces (snd (ReadBytes r)) (snd (ReadBytes t))"
proof (induction rule: coalesces.induct)
  case (same r)
  show ?case by (simp add: coalesces.same)
next
  case (chunk d buf rd t)
  show ?case
  proof (cases "IndexByte buf (CHR 0x0A)")
    case None
    from ReadBytes_chunk_more [OF None chunk.hyps(1)] chunk.IH show ?thesis by simp
  next
    case (Some i)
    then have i: "i < length buf" by (rule IndexByte_less)
    from Some have 1: "ReadBytes (buf, Data d # rd) =
        ((take (i + 1) buf, None), (drop (i + 1) buf, Data d # rd))"
      by (rule ReadBytes_chunk_line)
    from Some have "IndexByte (buf @ d) (CHR 0x0A) = Some i" by (rule IndexByte_append)
    then have "ReadBytes (buf @ d, rd) =
        ((take (i + 1) (buf @ d), None), (drop (i + 1) (buf @ d), rd))"
      by (rule ReadBytes_chunk_line)
    with i have 2: "ReadBytes (buf @ d, rd) =
        ((take (i + 1) buf, None), (drop (i + 1) buf @ d, rd))"
      by simp
    from chunk.IH 2 have "fst (ReadBytes t) = (take (i + 1) buf, None)"
      and "coalesces (drop (i + 1) buf @ d, rd) (snd (ReadBytes t))"
      by simp_all
    with 1 chunk.hyps(1) show ?thesis
      by (simp add: coalesces.chunk)
  qed
qed


lemma readEvent_loop_err:
  "ReadBytes (reader s) = ((line, Some err), r') \<Longrightarrow>
   readEvent_loop s =
     (if err = EOF \<and> buffer s \<noteq> [] then ((buffer s, None), s\<lparr>reader := r'\<rparr>)
      else (([], Some err), s\<lparr>reader := r'\<rparr>))"
  by (subst readEvent_loop.simps) simp

lemma readEvent_loop_comment:
  "ReadBytes (reader s) = ((line, None), r') \<Longrightarrow> HasPrefix line '':'' \<Longrightarrow>
   readEvent_loop s = readEvent_loop (s\<lparr>reader := r'\<rparr>)"
  by (subst readEvent_loop.simps) simp

lemma readEvent_loop_blank:
  "ReadBytes (reader s) = ((line, None), r') \<Longrightarrow> \<not> HasPrefix line '':'' \<Longrightarrow>
   TrimSpace line = [] \<Longrightarrow>
   readEvent_loop s =
     (if buffer s \<noteq> [] then ((buffer s, None), s\<lparr>reader := r'\<rparr>)
      else readEvent_loop (s\<lparr>reader := r'\<rparr>))"
  by (subst readEvent_loop.simps) simp

lemma readEvent_loop_data:
  "ReadBytes (reader s) = ((line, None), r') \<Longrightarrow> \<not> HasPrefix line '':'' \<Longrightarrow>
   TrimSpace line \<noteq> [] \<Longrightarrow> HasPrefix line ''data: '' \<Longrightarrow>
   readEvent_loop s =
     readEvent_loop
       (s\<lparr>reader := r', buffer := buffer s @ TrimSpace (TrimPrefix line ''data: '')\<rparr>)"
  by (subst readEvent_loop.simps) simp

lemma readEvent_loop_other:
  "ReadBytes (reader s) = ((line, None), r') \<Longrightarrow> \<not> HasPrefix line '':'' \<Longrightarrow>
   TrimSpace line \<noteq> [] \<Longrightarrow> \<not> HasPrefix line ''data: '' \<Longrightarrow>
   readEvent_loop s = readEvent_loop (s\<lparr>reader := r'\<rparr>)"
  by (subst readEvent_loop.simps) simp

lemma readEvent_loop_coalesces:
  "coalesces (reader s) (reader t) \<Longrightarrow> buffer s = buffer t \<Longrightarrow>
   fst (readEvent_loop s) = fst (readEvent_loop t) \<and>
   coalesces (reader (snd (readEvent_loop s))) (reader (snd (readEvent_loop t)))"
proof (induction s arbitrary: t rule: readEvent_loop.induct)
  case (1 s)
  obtain line eo r' where rb: "ReadBytes (reader s) = ((line, eo), r')"
    by (metis prod.exhaust)
  obtain r'' where rbt: "ReadBytes (reader t) = ((line, eo), r'')" and co: "coalesces r' r''"
    using ReadBytes_coalesces [OF "1.prems"(1)] rb by (cases "ReadBytes (reader t)") auto
  note b = "1.prems"(2)
  show ?case
  proof (cases eo)
    case (Some err)
    with rb rbt co b show ?thesis
      by (simp add: readEvent_loop_err)
  next
    case None
    note IH = "1.IH" [OF rb [symmetric] refl None]
    note rbs = rb [unfolded None] and rbts = rbt [unfolded None]
    show ?thesis
    proof (cases "HasPrefix line '':''")
      case True
      from IH(1) [OF True, of "t\<lparr>reader := r''\<rparr>"] co b
      show ?thesis
        by (simp add: readEvent_loop_comment [OF rbs True] readEvent_loop_comment [OF rbts True])
    next
      case notc: False
      show ?thesis
      proof (cases "TrimSpace line = []")
        case True
        show ?thesis
        proof (cases "buffer s = []")
          case False
          with co b show ?thesis
            by (simp add: readEvent_loop_blank [OF rbs notc True]
                  readEvent_loop_blank [OF rbts notc True])
        next
          case empty: True
          then have "\<not> 0 < length (buffer s)" by simp
          from IH(2) [OF notc _ this, of "t\<lparr>reader := r''\<rparr>"] True co b empty
          show ?thesis
            by (simp add: readEvent_loop_blank [OF rbs notc True]
                  readEvent_loop_blank [OF rbts notc True])
        qed
      next
        case notb: False
        then have nb: "length (TrimSpace line) \<noteq> 0" by simp
        show ?thesis
        proof (cases "HasPrefix line ''data: ''")
          case True
          let ?b = "buffer s @ TrimSpace (TrimPrefix line ''data: '')"
          from IH(3) [OF notc nb True, of "t\<lparr>reader := r'', buffer := ?b\<rparr>"] co b
          show ?thesis
            by (simp add: readEvent_loop_data [OF rbs notc notb True]
                  readEvent_loop_data [OF rbts notc notb True])
        next
          case False
          from IH(4) [OF notc nb False, of "t\<lparr>reader := r''\<rparr>"] co b
          show ?thesis
            by (simp add: readEvent_loop_other [OF rbs notc notb False]
                  readEvent_loop_other [OF rbts notc notb False])
        qed
      qed
    qed
  qed
qed

lemma readEvent_coalesces:
  assumes "coalesces (reader s) (reader t)"
  shows "fst (readEvent s) = fst (readEvent t) \<and>
         coalesces (reader (snd (readEvent s))) (reader (snd (readEvent t)))"
  unfolding readEvent_def using assms by (intro readEvent_loop_coalesces) simp_all

lemma readEvents_coalesces:
  "coalesces (reader s) (reader t) \<Longrightarrow> readEvents s = readEvents t"
proof (induction s arbitrary: t rule: readEvents.induct)
  case (1 s)
  obtain d eo s' where re: "readEvent s = ((d, eo), s')"
    by (metis prod.exhaust)
  obtain t' where ret: "readEvent t = ((d, eo), t')" and co: "coalesces (reader s') (reader t')"
    using readEvent_coalesces [OF "1.prems"] re by (cases "readEvent t") auto
  show ?case
  proof (cases eo)
    case (Some err)
    with re ret show ?thesis
      by (subst readEvents.simps, subst (2) readEvents.simps) simp
  next
    case None
    from "1.IH" [OF re [symmetric] refl None co] re ret None show ?thesis
      by (subst readEvents.simps, subst (2) readEvents.simps) simp
  qed
qed

lemma coalesces_chunks:
  "[] \<notin> set chunks \<Longrightarrow> coalesces (buf, map Data chunks @ rest) (buf @ concat chunks, rest)"
proof (induction chunks arbitrary: buf)
  case Nil
  show ?case by (simp add: coalesces.same)
next
  case (Cons d chunks)
  from Cons.prems have d: "d \<noteq> []" and rest: "[] \<notin> set chunks" by auto
  from Cons.IH [OF rest, of "buf @ d"]
  have "coalesces (buf @ d, map Data chunks @ rest) (buf @ concat (d # chunks), rest)"
    by simp
  with d show ?case by (simp add: coalesces.chunk)
qed

lemma readEvents_empty_chunk:
  "readEvents (newStreamReader [Data []]) = readEvents (newStreamReader [])"
  by code_simp

subsection \<open>The framer on a text is the framing rules on its lines\<close>

lemma readEvents_loopEvents: "readEvents s = loopEvents (s\<lparr>buffer := []\<rparr>)"
proof -
  obtain d eo s' where re: "readEvent s = ((d, eo), s')"
    by (metis prod.exhaust)
  show ?thesis
  proof (cases eo)
    case None
    with re show ?thesis
      by (subst readEvents.simps) (simp add: loopEvents_def readEvent_def split: prod.splits)
  next
    case (Some e)
    with re have "d = []" by (auto dest: readEvent_error_nil)
    with re Some show ?thesis
      by (subst readEvents.simps) (simp add: loopEvents_def readEvent_def)
  qed
qed

lemma readEvents_buffer: "readEvents (s\<lparr>buffer := b\<rparr>) = readEvents s"
  by (simp add: readEvents_loopEvents)

lemma loopEvents_err:
  "ReadBytes (reader s) = ((line, Some err), r') \<Longrightarrow>
   loopEvents s =
     (if err = EOF \<and> buffer s \<noteq> []
      then (buffer s # fst (readEvents (s\<lparr>reader := r'\<rparr>)), snd (readEvents (s\<lparr>reader := r'\<rparr>)))
      else ([], err))"
  by (simp add: loopEvents_def readEvent_loop_err)

lemma loopEvents_comment:
  "ReadBytes (reader s) = ((line, None), r') \<Longrightarrow> HasPrefix line '':'' \<Longrightarrow>
   loopEvents s = loopEvents (s\<lparr>reader := r'\<rparr>)"
  by (simp add: loopEvents_def readEvent_loop_comment)

lemma loopEvents_blank:
  "ReadBytes (reader s) = ((line, None), r') \<Longrightarrow> \<not> HasPrefix line '':'' \<Longrightarrow>
   TrimSpace line = [] \<Longrightarrow>
   loopEvents s =
     (if buffer s \<noteq> []
      then (buffer s # fst (readEvents (s\<lparr>reader := r'\<rparr>)), snd (readEvents (s\<lparr>reader := r'\<rparr>)))
      else loopEvents (s\<lparr>reader := r'\<rparr>))"
  by (simp add: loopEvents_def readEvent_loop_blank)

lemma loopEvents_data:
  "ReadBytes (reader s) = ((line, None), r') \<Longrightarrow> \<not> HasPrefix line '':'' \<Longrightarrow>
   TrimSpace line \<noteq> [] \<Longrightarrow> HasPrefix line ''data: '' \<Longrightarrow>
   loopEvents s =
     loopEvents (s\<lparr>reader := r', buffer := buffer s @ TrimSpace (TrimPrefix line ''data: '')\<rparr>)"
  by (simp add: loopEvents_def readEvent_loop_data)

lemma loopEvents_other:
  "ReadBytes (reader s) = ((line, None), r') \<Longrightarrow> \<not> HasPrefix line '':'' \<Longrightarrow>
   TrimSpace line \<noteq> [] \<Longrightarrow> \<not> HasPrefix line ''data: '' \<Longrightarrow>
   loopEvents s = loopEvents (s\<lparr>reader := r'\<rparr>)"
  by (simp add: loopEvents_def readEvent_loop_other)

lemma ReadBytes_end:
  "IndexByte text (CHR 0x0A) = None \<Longrightarrow> ReadBytes (text, []) = ((text, Some EOF), ([], []))"
  by (simp add: ReadBytes.simps maxConsecutiveEmptyReads_def)

lemma ReadBytes_fail:
  "IndexByte text (CHR 0x0A) = None \<Longrightarrow>
   ReadBytes (text, Fail e # rest) = ((text, Some e), ([], rest))"
  by (simp add: ReadBytes.simps maxConsecutiveEmptyReads_def)

lemma IndexByte_Nil: "IndexByte [] c = None"
  by (simp add: IndexByte_def)

lemma readEvents_exhausted: "readEvents \<lparr>reader = ([], []), buffer = b\<rparr> = ([], EOF)"
proof -
  have "ReadBytes (reader \<lparr>reader = ([], []), buffer = []\<rparr>) = (([], Some EOF), ([], []))"
    by (simp add: ReadBytes_end IndexByte_Nil)
  from loopEvents_err [OF this] show ?thesis
    by (simp add: readEvents_loopEvents)
qed

lemma loopEvents_text:
  "loopEvents \<lparr>reader = (t, []), buffer = b\<rparr> = (frame b (lines_of t), EOF)"
proof (induction t arbitrary: b rule: lines_of.induct)
  case (1 t)
  let ?s = "\<lparr>reader = (t, []), buffer = b\<rparr>"
  show ?case
  proof (cases "IndexByte t (CHR 0x0A)")
    case None
    then have rb: "ReadBytes (reader ?s) = ((t, Some EOF), ([], []))"
      by (simp add: ReadBytes_end)
    from None have "lines_of t = []" by (simp add: lines_of.simps)
    then show ?thesis
      by (simp add: loopEvents_err [OF rb] readEvents_exhausted)
  next
    case (Some i)
    let ?l = "take (Suc i) t" and ?t' = "drop (Suc i) t"
    from Some have rb: "ReadBytes (reader ?s) = ((?l, None), (?t', []))"
      by (simp add: ReadBytes_chunk_line)
    from Some have ls: "lines_of t = ?l # lines_of ?t'" by (simp add: lines_of.simps)
    note IH = "1.IH" [OF Some, simplified]
    have nxt: "readEvents \<lparr>reader = (?t', []), buffer = b\<rparr> = (frame [] (lines_of ?t'), EOF)"
      by (simp add: readEvents_loopEvents IH)
    show ?thesis
    proof (cases "HasPrefix ?l '':''")
      case True
      then show ?thesis
        by (simp add: loopEvents_comment [OF rb True] ls IH)
    next
      case notc: False
      show ?thesis
      proof (cases "TrimSpace ?l = []")
        case True
        with notc show ?thesis
          by (simp add: loopEvents_blank [OF rb notc True] ls IH nxt)
      next
        case notb: False
        show ?thesis
        proof (cases "HasPrefix ?l ''data: ''")
          case True
          with notc notb show ?thesis
            by (simp add: loopEvents_data [OF rb notc notb True] ls IH)
        next
          case False
          with notc notb show ?thesis
            by (simp add: loopEvents_other [OF rb notc notb False] ls IH)
        qed
      qed
    qed
  qed
qed

lemma readEvents_text:
  "readEvents \<lparr>reader = (text, []), buffer = b\<rparr> = (frame [] (lines_of text), EOF)"
  by (simp add: readEvents_loopEvents loopEvents_text)

lemma readEvents_chunks:
  assumes "[] \<notin> set chunks"
  shows "readEvents (newStreamReader (map Data chunks)) = (frame [] (lines_of (concat chunks)), EOF)"
proof -
  from assms coalesces_chunks [of chunks "[]" "[]"]
  have "readEvents (newStreamReader (map Data chunks)) =
        readEvents \<lparr>reader = (concat chunks, []), buffer = []\<rparr>"
    by (intro readEvents_coalesces) (simp add: newStreamReader_def)
  then show ?thesis by (simp add: readEvents_text)
qed

subsection \<open>A line that trims to nothing starts with a white-space byte\<close>

lemma spaceRunes_hd: "w \<in> set spaceRunes \<Longrightarrow> hd w \<noteq> CHR '':'' \<and> hd w \<noteq> CHR ''d''"
  by (auto simp: spaceRunes_def)

lemma HasPrefix_hd: "HasPrefix s w \<Longrightarrow> w \<noteq> [] \<Longrightarrow> s \<noteq> [] \<and> hd s = hd w"
  by (cases w; cases s) (auto simp: HasPrefix_def)

lemma TrimRight_None: "find (HasSuffix s) spaceRunes = None \<Longrightarrow> TrimRight s = s"
  by (subst TrimRight.simps) simp

lemma TrimRight_Some:
  "find (HasSuffix s) spaceRunes = Some w \<Longrightarrow> TrimRight s = TrimRight (take (length s - length w) s)"
  by (subst TrimRight.simps) simp

lemma TrimLeft_None: "find (HasPrefix s) spaceRunes = None \<Longrightarrow> TrimLeft s = s"
  by (subst TrimLeft.simps) simp

lemma TrimRight_empty_hd:
  "TrimRight s = [] \<Longrightarrow> s \<noteq> [] \<Longrightarrow> hd s \<noteq> CHR '':'' \<and> hd s \<noteq> CHR ''d''"
proof (induction s rule: TrimRight.induct)
  case (1 s)
  show ?case
  proof (cases "find (HasSuffix s) spaceRunes")
    case None
    from "1.prems" TrimRight_None [OF None] show ?thesis by simp
  next
    case (Some w)
    then have w: "w \<in> set spaceRunes" and suf: "HasSuffix s w" by (auto dest: find_holds)
    let ?s' = "take (length s - length w) s"
    from "1.prems"(1) TrimRight_Some [OF Some] have tr: "TrimRight ?s' = []" by simp
    show ?thesis
    proof (cases "?s' = []")
      case True
      with "1.prems"(2) have "length s \<le> length w" by (cases "length s - length w") auto
      moreover from suf have "length w \<le> length s" and d: "drop (length s - length w) s = w"
        by (simp_all add: HasSuffix_def)
      ultimately have "length s - length w = 0" by simp
      from d [unfolded this] have "hd s = hd w" by simp
      with spaceRunes_hd [OF w] show ?thesis by simp
    next
      case False
      then have "0 < length s - length w" by (cases "length s - length w") auto
      then have "hd ?s' = hd s" by (rule hd_take)
      with "1.IH" [OF Some tr False] show ?thesis by simp
    qed
  qed
qed

lemma TrimSpace_empty_hd:
  assumes "TrimSpace s = []" and "s \<noteq> []"
  shows "hd s \<noteq> CHR '':'' \<and> hd s \<noteq> CHR ''d''"
proof (cases "find (HasPrefix s) spaceRunes")
  case None
  with assms(1) TrimLeft_None [OF None] have "TrimRight s = []" by (simp add: TrimSpace_def)
  then show ?thesis using assms(2) by (rule TrimRight_empty_hd)
next
  case (Some w)
  then have w: "w \<in> set spaceRunes" and pre: "HasPrefix s w" by (auto dest: find_holds)
  from w have "w \<noteq> []" by (rule spaceRunes_nonempty)
  with pre have "hd s = hd w" by (auto dest: HasPrefix_hd)
  with w show ?thesis by (simp add: spaceRunes_hd)
qed

lemma blank_not_comment: "TrimSpace l = [] \<Longrightarrow> \<not> HasPrefix l '':''"
  using TrimSpace_empty_hd [of l] by (cases l) (auto simp: HasPrefix_def)

lemma blank_not_data: "TrimSpace l = [] \<Longrightarrow> \<not> HasPrefix l (CHR ''d'' # p)"
  using TrimSpace_empty_hd [of l] by (cases l) (auto simp: HasPrefix_def)

lemma comment_not_data: "HasPrefix l '':'' \<Longrightarrow> \<not> HasPrefix l (CHR ''d'' # p)"
  by (cases l) (auto simp: HasPrefix_def)

subsection \<open>Lines of a text\<close>

lemma takeWhile_split: "c \<notin> set body \<Longrightarrow> takeWhile (\<lambda>x. x \<noteq> c) (body @ c # t) = body"
  by (induction body) auto

lemma IndexByte_split:
  "c \<notin> set body \<Longrightarrow> IndexByte (body @ c # t) c = Some (length body)"
  by (simp add: IndexByte_def takeWhile_split)

lemma lines_of_none: "CHR 0x0A \<notin> set t \<Longrightarrow> lines_of t = []"
  by (simp add: lines_of.simps IndexByte_def)

lemma lines_of_line:
  "CHR 0x0A \<notin> set body \<Longrightarrow> lines_of (body @ CHR 0x0A # t) = (body @ [CHR 0x0A]) # lines_of t"
  by (subst lines_of.simps) (simp add: IndexByte_split)

lemma lines_of_append:
  "t1 = [] \<or> last t1 = CHR 0x0A \<Longrightarrow> lines_of (t1 @ t2) = lines_of t1 @ lines_of t2"
proof (induction "length t1" arbitrary: t1 rule: less_induct)
  case less
  show ?case
  proof (cases "CHR 0x0A \<in> set t1")
    case False
    with less.prems have "t1 = []" by (cases t1 rule: rev_cases) auto
    then show ?thesis by (simp add: lines_of_none)
  next
    case True
    then obtain body t' where t1: "t1 = body @ CHR 0x0A # t'" and nb: "CHR 0x0A \<notin> set body"
      by (auto dest: split_list_first)
    from t1 less.prems have "t' = [] \<or> last t' = CHR 0x0A" by (auto split: if_splits)
    moreover from t1 have "length t' < length t1" by simp
    ultimately have "lines_of (t' @ t2) = lines_of t' @ lines_of t2" by (rule less.hyps [rotated])
    with t1 nb show ?thesis by (simp add: lines_of_line)
  qed
qed

lemma lines_of_tail:
  "CHR 0x0A \<notin> set rest \<Longrightarrow> lines_of (t @ rest) = lines_of t"
proof (induction "length t" arbitrary: t rule: less_induct)
  case less
  show ?case
  proof (cases "CHR 0x0A \<in> set t")
    case False
    with less.prems show ?thesis by (simp add: lines_of_none)
  next
    case True
    then obtain body t' where t: "t = body @ CHR 0x0A # t'" and nb: "CHR 0x0A \<notin> set body"
      by (auto dest: split_list_first)
    from t have "length t' < length t" by simp
    from less.hyps [OF this less.prems] t nb show ?thesis by (simp add: lines_of_line)
  qed
qed

subsection \<open>Lines that the framing rules ignore, and event boundaries\<close>

lemma frame_ignored:
  "HasPrefix c '':'' \<or> (TrimSpace c \<noteq> [] \<and> \<not> HasPrefix c ''data: '') \<Longrightarrow>
   frame b (ls1 @ c # ls2) = frame b (ls1 @ ls2)"
  by (induction ls1 arbitrary: b) auto

lemma frame_boundary:
  "ls1 \<noteq> [] \<Longrightarrow> \<not> HasPrefix (last ls1) '':'' \<Longrightarrow> TrimSpace (last ls1) = [] \<Longrightarrow>
   frame b (ls1 @ ls) = frame b ls1 @ frame [] ls"
proof (induction ls1 arbitrary: b)
  case Nil
  then show ?case by simp
next
  case (Cons l ls1)
  show ?case
  proof (cases "ls1 = []")
    case True
    with Cons.prems show ?thesis by simp
  next
    case False
    with Cons.prems Cons.IH show ?thesis by simp
  qed
qed

subsection \<open>The framing rules give the non-empty payloads of the groups\<close>

lemma groups_nonempty: "groups ls \<noteq> []"
  by (induction ls) auto

lemma dataOf_comment: "HasPrefix l '':'' \<Longrightarrow> dataOf l = []"
  using comment_not_data [of l "''ata: ''"] by (simp add: dataOf_def)

lemma dataOf_data: "HasPrefix l ''data: '' \<Longrightarrow> dataOf l = TrimSpace (TrimPrefix l ''data: '')"
  by (simp add: dataOf_def)

lemma dataOf_other: "\<not> HasPrefix l ''data: '' \<Longrightarrow> dataOf l = []"
  by (simp add: dataOf_def)

lemma frame_groups:
  "frame b ls =
     filter (\<lambda>p. p \<noteq> []) ((b @ payloadOf (hd (groups ls))) # map payloadOf (tl (groups ls)))"
proof (induction ls arbitrary: b)
  case Nil
  show ?case by (simp add: payloadOf_def)
next
  case (Cons l ls)
  show ?case
  proof (cases "HasPrefix l '':''")
    case True
    then have "\<not> isBlank l" using blank_not_comment [of l] by (auto simp: isBlank_def)
    with True Cons.IH [of b] show ?thesis
      by (simp add: payloadOf_def dataOf_comment)
  next
    case notc: False
    show ?thesis
    proof (cases "TrimSpace l = []")
      case True
      have split: "map payloadOf (groups ls) = payloadOf (hd (groups ls)) # map payloadOf (tl (groups ls))"
        using groups_nonempty [of ls] by (cases "groups ls") auto
      from True notc Cons.IH [of "[]"] show ?thesis
        by (simp add: isBlank_def payloadOf_def split [unfolded payloadOf_def])
    next
      case notb: False
      show ?thesis
      proof (cases "HasPrefix l ''data: ''")
        case True
        with notc notb Cons.IH [of "b @ TrimSpace (TrimPrefix l ''data: '')"] show ?thesis
          by (simp add: isBlank_def payloadOf_def dataOf_data)
      next
        case False
        with notc notb Cons.IH [of b] show ?thesis
          by (simp add: isBlank_def payloadOf_def dataOf_other)
      qed
    qed
  qed
qed

lemma frame_specEvents: "frame [] ls = specEvents ls"
proof -
  have "map payloadOf (groups ls) = payloadOf (hd (groups ls)) # map payloadOf (tl (groups ls))"
    using groups_nonempty [of ls] by (cases "groups ls") auto
  then show ?thesis by (simp add: frame_groups specEvents_def)
qed

subsection \<open>The claims\<close>

text \<open>
  C1. Whenever the payloads framed from a stream are all empty, the terminator
  \<^verbatim>\<open>[DONE]\<close> or decodable chunks, and the sequence of \<^verbatim>\<open>readEvent\<close> calls ends with
  \<^verbatim>\<open>io.EOF\<close>, \<^verbatim>\<open>processStream\<close> returns, with no error, the concatenation of the
  non-empty delta fragments of every decoded non-terminator chunk: chunks in framing
  order, and within a chunk in the order of its choice entries.
\<close>

theorem processStream_concatenates_fragments:
  assumes "readEvents (newStreamReader r) = (evs, EOF)"
    and "\<forall>p \<in> set evs. p = [] \<or> p = ''[DONE]'' \<or> Unmarshal p \<noteq> None"
  shows "processStream Unmarshal r =
           (concat (map deltaText
              (List.map_filter Unmarshal (filter (\<lambda>p. p \<noteq> [] \<and> p \<noteq> ''[DONE]'') evs))),
            None)"
  using assms foldEvents_ok [of evs Unmarshal "[]"]
  by (simp add: processStream_def processStream_loop_foldEvents)

theorem processStream_concatenates_fragments_witness:
  "readEvents (newStreamReader
      [Data (''data: {\"choices\":[{\"delta\":{\"con''),
       Data (''tent\":\"Hello\"}}]}'' @ [CHR 0x0A, CHR 0x0A] @ ''da''),
       Data (''ta: {\"choices\":[{\"delta\":{\"content\":\" World\"}}]}'' @ [CHR 0x0A, CHR 0x0A]),
       Data (''data: [DONE]'' @ [CHR 0x0A, CHR 0x0A])])
     = ([''{\"choices\":[{\"delta\":{\"content\":\"Hello\"}}]}'',
         ''{\"choices\":[{\"delta\":{\"content\":\" World\"}}]}'', ''[DONE]''], EOF)
   \<and> processStream testUnmarshal
      [Data (''data: {\"choices\":[{\"delta\":{\"con''),
       Data (''tent\":\"Hello\"}}]}'' @ [CHR 0x0A, CHR 0x0A] @ ''da''),
       Data (''ta: {\"choices\":[{\"delta\":{\"content\":\" World\"}}]}'' @ [CHR 0x0A, CHR 0x0A]),
       Data (''data: [DONE]'' @ [CHR 0x0A, CHR 0x0A])]
     = (''Hello World'', None)"
proof -
  let ?r = "[Data (''data: {\"choices\":[{\"delta\":{\"con''),
       Data (''tent\":\"Hello\"}}]}'' @ [CHR 0x0A, CHR 0x0A] @ ''da''),
       Data (''ta: {\"choices\":[{\"delta\":{\"content\":\" World\"}}]}'' @ [CHR 0x0A, CHR 0x0A]),
       Data (''data: [DONE]'' @ [CHR 0x0A, CHR 0x0A])]"
  let ?evs = "[''{\"choices\":[{\"delta\":{\"content\":\"Hello\"}}]}'',
         ''{\"choices\":[{\"delta\":{\"content\":\" World\"}}]}'', ''[DONE]'']"
  have ev: "readEvents (newStreamReader ?r) = (?evs, EOF)"
    by code_simp
  have u1: "testUnmarshal ''{\"choices\":[{\"delta\":{\"content\":\"Hello\"}}]}''
      = Some (chunkOf [choiceOf [] ''Hello''])"
    by (simp add: testUnmarshal_def)
  have u2: "testUnmarshal ''{\"choices\":[{\"delta\":{\"content\":\" World\"}}]}''
      = Some (chunkOf [choiceOf [] '' World''])"
    by (simp add: testUnmarshal_def)
  have ok: "\<forall>p \<in> set ?evs. p = [] \<or> p = ''[DONE]'' \<or> testUnmarshal p \<noteq> None"
    by (simp add: u1 u2)
  have "processStream testUnmarshal ?r = (''Hello World'', None)"
    using processStream_concatenates_fragments [OF ev ok]
    by (simp add: List.map_filter_simps u1 u2 deltaText_def chunkOf_def choiceOf_def)
  with ev show ?thesis by simp
qed

text \<open>
  C2. If some framed payload that is neither empty nor \<^verbatim>\<open>[DONE]\<close> fails to decode,
  \<^verbatim>\<open>processStream\<close> returns \<^verbatim>\<open>ErrStreamCorrupted\<close> with the empty string, whatever was
  accumulated before and whatever follows in the stream.
\<close>

theorem processStream_corrupted:
  assumes "p \<in> set (fst (readEvents (newStreamReader r)))"
    and "p \<noteq> []" and "p \<noteq> ''[DONE]''" and "Unmarshal p = None"
  shows "processStream Unmarshal r = ([], Some ErrStreamCorrupted)"
proof -
  from assms have "\<exists>p \<in> set (fst (readEvents (newStreamReader r))).
      p \<noteq> [] \<and> p \<noteq> ''[DONE]'' \<and> Unmarshal p = None"
    by blast
  then show ?thesis
    by (simp only: processStream_def processStream_loop_foldEvents foldEvents_corrupted)
qed

theorem processStream_corrupted_witness:
  "processStream testUnmarshal
     [Data (''data: {\"choices\":[{\"delta\":{\"content\":\"Hello\"}}]}'' @ [CHR 0x0A, CHR 0x0A]),
      Data (''data: {invalid json}'' @ [CHR 0x0A, CHR 0x0A]),
      Data (''data: {\"choices\":[{\"delta\":{\"content\":\" World\"}}]}'' @ [CHR 0x0A, CHR 0x0A])]
   = ([], Some ErrStreamCorrupted)"
proof -
  let ?r = "[Data (''data: {\"choices\":[{\"delta\":{\"content\":\"Hello\"}}]}'' @ [CHR 0x0A, CHR 0x0A]),
      Data (''data: {invalid json}'' @ [CHR 0x0A, CHR 0x0A]),
      Data (''data: {\"choices\":[{\"delta\":{\"content\":\" World\"}}]}'' @ [CHR 0x0A, CHR 0x0A])]"
  have ev: "fst (readEvents (newStreamReader ?r)) =
      [''{\"choices\":[{\"delta\":{\"content\":\"Hello\"}}]}'', ''{invalid json}'',
       ''{\"choices\":[{\"delta\":{\"content\":\" World\"}}]}'']"
    by code_simp
  have "''{invalid json}'' \<in> set (fst (readEvents (newStreamReader ?r)))"
    by (simp only: ev) simp
  moreover have "testUnmarshal ''{invalid json}'' = None"
    by (simp add: testUnmarshal_def)
  ultimately show ?thesis
    by (intro processStream_corrupted [of "''{invalid json}''"]) simp_all
qed


text \<open>
  C3. However a byte sequence is cut into (non-empty) chunks delivered by successive
  reads, repeated \<^verbatim>\<open>readEvent\<close> calls give the same payloads, ending with the same
  error, as when the whole sequence arrives in a single chunk.
\<close>

theorem readEvents_chunking:
  assumes "[] \<notin> set chunks"
  shows "readEvents (newStreamReader (map Data chunks)) =
         readEvents (newStreamReader [Data (concat chunks)])"
proof (cases "concat chunks = []")
  case True
  with assms have "chunks = []" by (cases chunks) auto
  then show ?thesis by (simp add: readEvents_empty_chunk)
next
  case False
  let ?t = "\<lparr>reader = (concat chunks, []), buffer = []\<rparr>"
  from assms coalesces_chunks [of chunks "[]" "[]"]
  have "readEvents (newStreamReader (map Data chunks)) = readEvents ?t"
    by (intro readEvents_coalesces) (simp add: newStreamReader_def)
  moreover from False coalesces_chunks [of "[concat chunks]" "[]" "[]"]
  have "readEvents (newStreamReader [Data (concat chunks)]) = readEvents ?t"
    by (intro readEvents_coalesces) (simp add: newStreamReader_def)
  ultimately show ?thesis by simp
qed


theorem readEvents_chunking_witness:
  "readEvents (newStreamReader
      [Data '': ke'', Data (''ep'' @ [CHR 0x0A] @ ''data: [DO''), Data ''NE]'',
       Data [CHR 0x0A], Data ([CHR 0x0A] @ ''data: x'' @ [CHR 0x0A])])
   = readEvents (newStreamReader
      [Data ('': keep'' @ [CHR 0x0A] @ ''data: [DONE]'' @ [CHR 0x0A, CHR 0x0A] @
             ''data: x'' @ [CHR 0x0A])])"
proof -
  let ?chunks = "['': ke'', ''ep'' @ [CHR 0x0A] @ ''data: [DO'', ''NE]'',
       [CHR 0x0A], [CHR 0x0A] @ ''data: x'' @ [CHR 0x0A]]"
  have "[] \<notin> set ?chunks" by simp
  from readEvents_chunking [OF this] show ?thesis by simp
qed

text \<open>
  C4. The payloads \<^verbatim>\<open>readEvent\<close> returns are exactly the non-empty payloads of the
  groups of lines between blank lines, in order: each is the separator-free
  concatenation of the trimmed remainders of the group's \<^verbatim>\<open>data: \<close> lines. So a blank
  line ends an event exactly when something has been accumulated, and a blank line
  met with an empty buffer yields neither an event nor an error.
\<close>

theorem readEvent_payloads:
  assumes "[] \<notin> set chunks"
  shows "fst (readEvents (newStreamReader (map Data chunks))) =
           filter (\<lambda>p. p \<noteq> []) (map payloadOf (groups (lines_of (concat chunks))))"
  using readEvents_chunks [OF assms] by (simp add: frame_specEvents specEvents_def)


theorem readEvent_payloads_witness:
  "fst (readEvents (newStreamReader
      [Data ([CHR 0x0A] @ ''data:  ab '' @ [CHR 0x0A] @ ''da''),
       Data (''ta: c'' @ [CHR 0x0A] @ '': x'' @ [CHR 0x0A] @ ''  '' @ [CHR 0x0A, CHR 0x0A]),
       Data (''data: d'' @ [CHR 0x0A])]))
   = [''abc'', ''d'']"
proof -
  let ?chunks = "[[CHR 0x0A] @ ''data:  ab '' @ [CHR 0x0A] @ ''da'',
       ''ta: c'' @ [CHR 0x0A] @ '': x'' @ [CHR 0x0A] @ ''  '' @ [CHR 0x0A, CHR 0x0A],
       ''data: d'' @ [CHR 0x0A]]"
  have ne: "[] \<notin> set ?chunks" by simp
  have "filter (\<lambda>p. p \<noteq> []) (map payloadOf (groups (lines_of (concat ?chunks))))
        = [''abc'', ''d'']"
    by code_simp
  with readEvent_payloads [OF ne] show ?thesis by simp
qed
end
